theory Spec2Isabelle
  imports Main "HOL-Library.AList"
begin

section \<open>Python strings\<close>

text \<open>
  A Python \<open>str\<close> is a sequence of code points. It is modelled as \<open>string\<close>, one
  \<open>char\<close> per code point, so the model covers the code points below 256. The predicates
  below are the library's own on that range.
\<close>

definition dquote :: char where
  "dquote = CHR 0x22"

definition backslash :: char where
  "backslash = CHR 0x5C"

text \<open>\<open>str.isspace\<close> on one code point: the characters \<open>str.strip()\<close> removes.\<close>

definition isspace :: "char \<Rightarrow> bool" where
  "isspace c \<longleftrightarrow>
     c = CHR 0x20 \<or> c = CHR 0x09 \<or> c = CHR 0x0A \<or> c = CHR 0x0B \<or> c = CHR 0x0C \<or>
     c = CHR 0x0D \<or> c = CHR 0x1C \<or> c = CHR 0x1D \<or> c = CHR 0x1E \<or> c = CHR 0x1F \<or>
     c = CHR 0x85 \<or> c = CHR 0xA0"

text \<open>\<open>s.strip(chars)\<close>: the longest prefix and suffix made of \<open>chars\<close> are removed.\<close>

definition strip_chars :: "(char \<Rightarrow> bool) \<Rightarrow> string \<Rightarrow> string" where
  "strip_chars p s = rev (dropWhile p (rev (dropWhile p s)))"

definition strip :: "string \<Rightarrow> string" where
  "strip s = strip_chars isspace s"

text \<open>\<open>s.startswith(p)\<close>.\<close>

fun startswith :: "string \<Rightarrow> string \<Rightarrow> bool" where
  "startswith s [] = True"
| "startswith [] (p # ps) = False"
| "startswith (c # cs) (p # ps) = (c = p \<and> startswith cs ps)"

text \<open>\<open>x or d\<close> on strings: the empty string is falsy.\<close>

definition or_default :: "string \<Rightarrow> string \<Rightarrow> string" where
  "or_default x d = (if x \<noteq> [] then x else d)"

text \<open>\<open>s.split(sep)\<close> for a one-character separator: always at least one part.\<close>

fun split_acc :: "char \<Rightarrow> string \<Rightarrow> string \<Rightarrow> string list" where
  "split_acc sep cur [] = [cur]"
| "split_acc sep cur (c # cs) =
     (if c = sep then cur # split_acc sep [] cs else split_acc sep (cur @ [c]) cs)"

definition split_on :: "char \<Rightarrow> string \<Rightarrow> string list" where
  "split_on sep s = split_acc sep [] s"

text \<open>
  \<open>s.split(sep, 1)\<close> and \<open>s.partition(sep)\<close> when \<open>sep\<close> occurs in \<open>s\<close>: the text before
  the first separator and the text after it.
\<close>

definition before_sep :: "char \<Rightarrow> string \<Rightarrow> string" where
  "before_sep sep s = takeWhile (\<lambda>c. c \<noteq> sep) s"

definition after_sep :: "char \<Rightarrow> string \<Rightarrow> string" where
  "after_sep sep s = tl (dropWhile (\<lambda>c. c \<noteq> sep) s)"

text \<open>
  \<open>s.split(None, k)\<close>: runs of whitespace separate the parts, at most \<open>k\<close> splits are
  made, and what is left after the \<open>k\<close>-th split (leading whitespace skipped) is the last
  part.
\<close>

fun split_none :: "nat \<Rightarrow> string \<Rightarrow> string list" where
  "split_none 0 s =
     (let t = dropWhile isspace s in if t = [] then [] else [t])"
| "split_none (Suc k) s =
     (let t = dropWhile isspace s in
      if t = [] then []
      else takeWhile (\<lambda>c. \<not> isspace c) t # split_none k (dropWhile (\<lambda>c. \<not> isspace c) t))"

text \<open>\<open>str.lower\<close> on one code point below 256.\<close>

definition lower_char :: "char \<Rightarrow> char" where
  "lower_char c =
     (let n = (of_char c :: nat) in
      if (65 \<le> n \<and> n \<le> 90) \<or> (192 \<le> n \<and> n \<le> 222 \<and> n \<noteq> 215)
      then char_of (n + 32) else c)"

definition lower :: "string \<Rightarrow> string" where
  "lower s = map lower_char s"

text \<open>\<open>s.replace('\"', '"')\<close>: left to right, without overlap.\<close>

fun replace_escaped_quote :: "string \<Rightarrow> string" where
  "replace_escaped_quote (a # b # cs) =
     (if a = backslash \<and> b = dquote then dquote # replace_escaped_quote cs
      else a # replace_escaped_quote (b # cs))"
| "replace_escaped_quote cs = cs"

section \<open>The tokenizer (\<open>cdn_log_parser._parse_quoted_fields\<close>)\<close>

text \<open>
  The inner loop of the tokenizer, entered just after an opening quote with the rest of
  the line as argument. It returns the slice \<open>line[start:i]\<close> and the text that follows
  the closing quote (nothing, when the line ends first). A backslash skips the character
  after it; at the very end of the line it leaves \<open>i = n + 1\<close>, and the slice stops at
  the end of the line.
\<close>

fun scan_field :: "string \<Rightarrow> string \<times> string" where
  "scan_field [] = ([], [])"
| "scan_field (c # cs) =
     (if c = dquote then ([], cs)
      else if c = backslash then
        (case cs of
           [] \<Rightarrow> ([c], [])
         | d # ds \<Rightarrow> (case scan_field ds of (f, r) \<Rightarrow> (c # d # f, r)))
      else (case scan_field cs of (f, r) \<Rightarrow> (c # f, r)))"

lemma scan_field_rest_le: "length (snd (scan_field cs)) \<le> length cs"
proof (induction cs rule: scan_field.induct)
  case 1
  show ?case by simp
next
  case (2 c cs)
  show ?case
  proof (cases "c = dquote")
    case True
    then show ?thesis by simp
  next
    case nq: False
    show ?thesis
    proof (cases "c = backslash")
      case bs: True
      show ?thesis
      proof (cases cs)
        case Nil
        with nq bs show ?thesis by simp
      next
        case (Cons d ds)
        with 2(1)[OF nq bs Cons] nq bs show ?thesis by (cases "scan_field ds") simp
      qed
    next
      case False
      with 2(2)[OF nq False] nq show ?thesis by (cases "scan_field cs") simp
    qed
  qed
qed

function parse_quoted_fields :: "string \<Rightarrow> string list" where
  "parse_quoted_fields [] = []"
| "parse_quoted_fields (c # cs) =
     (if c = dquote then
        replace_escaped_quote (fst (scan_field cs)) # parse_quoted_fields (snd (scan_field cs))
      else parse_quoted_fields cs)"
  by pat_completeness auto
termination
  by (relation "measure length") (auto simp: scan_field_rest_le less_Suc_eq_le)

text \<open>
  Whether the inner loop, entered after an opening quote, stops at a closing quote
  (\<open>i < n\<close> when it ends) rather than at the end of the line.
\<close>

fun has_closing :: "string \<Rightarrow> bool" where
  "has_closing [] = False"
| "has_closing (c # cs) =
     (if c = dquote then True
      else if c = backslash then (case cs of [] \<Rightarrow> False | d # ds \<Rightarrow> has_closing ds)
      else has_closing cs)"

text \<open>
  Whether the outer loop, having read the whole text, is between fields: every field
  it opened was closed by a quote.
\<close>

function ends_outside :: "string \<Rightarrow> bool" where
  "ends_outside [] = True"
| "ends_outside (c # cs) =
     (if c = dquote then has_closing cs \<and> ends_outside (snd (scan_field cs))
      else ends_outside cs)"
  by pat_completeness auto
termination
proof (relation "measure length")
  show "wf (measure length)" by simp
next
  fix c cs
  have "length (snd (scan_field cs)) \<le> length cs" by (rule scan_field_rest_le)
  then show "(snd (scan_field cs), c # cs) \<in> measure length" by simp
next
  fix c cs
  show "(cs, c # cs) \<in> measure (length :: string \<Rightarrow> nat)" by simp
qed

text \<open>
  The same function statement by statement, with the index \<open>i\<close> as in the source and
  every read \<open>line[i]\<close> checked: a read at or past the end of the line is Python's
  \<open>IndexError\<close>. A slice, unlike a read, stops at the end of the line.
\<close>

datatype py_error = IndexError

definition char_at :: "string \<Rightarrow> nat \<Rightarrow> py_error + char" where
  "char_at line i = (if i < length line then Inr (line ! i) else Inl IndexError)"

definition slice :: "string \<Rightarrow> nat \<Rightarrow> nat \<Rightarrow> string" where
  "slice line start stop = take (stop - start) (drop start line)"

text \<open>The inner \<open>while\<close> loop: the index at which it stops.\<close>

function scan_to_quote :: "string \<Rightarrow> nat \<Rightarrow> py_error + nat" where
  "scan_to_quote line i =
     (if i < length line then
        (case char_at line i of
           Inl e \<Rightarrow> Inl e
         | Inr c \<Rightarrow>
             if c \<noteq> dquote then
               (case char_at line i of
                  Inl e \<Rightarrow> Inl e
                | Inr c' \<Rightarrow> scan_to_quote line ((if c' = backslash then i + 1 else i) + 1))
             else Inr i)
      else Inr i)"
  by pat_completeness auto
termination
  by (relation "measure (\<lambda>(line, i). length line - i)") auto

declare scan_to_quote.simps [simp del]

lemma scan_to_quote_ge: "scan_to_quote line i = Inr j \<Longrightarrow> i \<le> j"
proof (induction line i rule: scan_to_quote.induct)
  case (1 line i)
  show ?case
  proof (cases "i < length line")
    case False
    with "1.prems" show ?thesis by (simp add: scan_to_quote.simps[of line i])
  next
    case lt: True
    show ?thesis
    proof (cases "line ! i = dquote")
      case True
      with lt "1.prems" show ?thesis
        by (simp add: char_at_def scan_to_quote.simps[of line i])
    next
      case nq: False
      let ?k = "(if line ! i = backslash then i + 1 else i) + 1"
      from lt nq "1.prems" have r: "scan_to_quote line ?k = Inr j"
        by (simp add: char_at_def scan_to_quote.simps[of line i])
      have c: "char_at line i = Inr (line ! i)" using lt by (simp add: char_at_def)
      from "1.IH"[OF lt c nq c r] show ?thesis by (simp split: if_splits)
    qed
  qed
qed

text \<open>The outer \<open>while\<close> loop, with the list of fields built so far.\<close>

function fields_loop :: "string \<Rightarrow> nat \<Rightarrow> string list \<Rightarrow> py_error + string list" where
  "fields_loop line i flds =
     (if i < length line then
        (case char_at line i of
           Inl e \<Rightarrow> Inl e
         | Inr c \<Rightarrow>
             if c = dquote then
               (case scan_to_quote line (i + 1) of
                  Inl e \<Rightarrow> Inl e
                | Inr j \<Rightarrow>
                    fields_loop line (if j < length line then j + 1 else j)
                      (flds @ [replace_escaped_quote (slice line (i + 1) j)]))
             else fields_loop line (i + 1) flds)
      else Inr flds)"
  by pat_completeness auto
termination
proof (relation "measure (\<lambda>(line, i, flds). length line - i)", goal_cases)
  case 1
  show ?case by simp
next
  case (2 line i flds c j)
  then have "i + 1 \<le> j" by (auto dest: scan_to_quote_ge)
  with 2 show ?case by auto
next
  case (3 line i flds c)
  then show ?case by auto
qed

definition parse_quoted_fields_ix :: "string \<Rightarrow> py_error + string list" where
  "parse_quoted_fields_ix line = fields_loop line 0 []"

section \<open>The metrics extractor (\<open>cmcd_parser\<close>)\<close>

text \<open>
  \<open>urllib.parse.parse_qs(query_string, keep_blank_values=True)\<close> belongs to the Python
  standard library, not to this repository. The definitions follow the library:
  the string is split at \<open>&\<close>, empty pieces are dropped, each piece is split at its first
  \<open>=\<close> (a piece without \<open>=\<close> has the blank value), \<open>+\<close> becomes a space, and the name
  and the value are percent-decoded. Percent-decoding (\<open>urllib.parse.unquote\<close>) can
  produce any code point, so it is the parameter \<open>unq\<close> of the model.
\<close>

definition plus_to_space :: "string \<Rightarrow> string" where
  "plus_to_space s = map (\<lambda>c. if c = CHR ''+'' then CHR '' '' else c) s"

definition parse_qsl :: "(string \<Rightarrow> string) \<Rightarrow> string \<Rightarrow> (string \<times> string) list" where
  "parse_qsl unq qs =
     (let query_args = (if qs \<noteq> [] then split_on (CHR ''&'') qs else []) in
      concat (map (\<lambda>name_value.
        if name_value = [] then []
        else
          (let nv0 = before_sep (CHR ''='') name_value;
               nv1 = (if CHR ''='' \<in> set name_value
                      then after_sep (CHR ''='') name_value else [])
           in [(unq (plus_to_space nv0), unq (plus_to_space nv1))])) query_args))"

text \<open>
  The dictionary \<open>parse_qs\<close> builds: keys in order of first occurrence, each with the
  list of its values in order.
\<close>

fun add_value :: "string \<Rightarrow> string \<Rightarrow> (string \<times> string list) list \<Rightarrow> (string \<times> string list) list" where
  "add_value name v [] = [(name, [v])]"
| "add_value name v ((k, vs) # ps) =
     (if k = name then (k, vs @ [v]) # ps else (k, vs) # add_value name v ps)"

definition parse_qs :: "(string \<Rightarrow> string) \<Rightarrow> string \<Rightarrow> (string \<times> string list) list" where
  "parse_qs unq qs = fold (\<lambda>(name, v) d. add_value name v d) (parse_qsl unq qs) []"

text \<open>\<open>_clean\<close>: one level of surrounding double quotes is removed.\<close>

definition clean :: "string \<Rightarrow> string" where
  "clean v0 =
     (let v = strip v0 in
      if length v \<ge> 2 \<and> hd v = dquote \<and> last v = dquote then butlast (tl v) else v)"

text \<open>
  The body of the loop over the pairs of one combined parameter. A Python \<open>dict\<close> keeps
  its keys in insertion order and \<open>out[k] = v\<close> keeps the position of a key already
  there: \<open>AList.update\<close>.
\<close>

definition combined_pair :: "string \<Rightarrow> (string \<times> string) list \<Rightarrow> (string \<times> string) list" where
  "combined_pair pair0 out =
     (let pair = strip pair0 in
      if CHR ''='' \<in> set pair then
        (let k = strip (before_sep (CHR ''='') pair);
             v = strip (after_sep (CHR ''='') pair)
         in if k \<noteq> [] then AList.update (''cmcd.'' @ k) (clean v) out else out)
      else out)"

text \<open>The body of the loop over \<open>params.items()\<close>.\<close>

definition prefixed_param :: "string \<times> string list \<Rightarrow> (string \<times> string) list \<Rightarrow> (string \<times> string) list" where
  "prefixed_param kv out =
     (case kv of (key, values) \<Rightarrow>
        if startswith key ''cmcd.'' \<and> values \<noteq> [] then
          (let cmcd_key = drop 5 key in
           if cmcd_key \<noteq> [] then AList.update (''cmcd.'' @ cmcd_key) (clean (hd values)) out
           else out)
        else out)"

text \<open>
  \<open>cmcd_param\<close>: the values of the first key of \<open>params\<close> whose lower-case form is
  \<open>cmcd\<close>; no such key gives \<open>None\<close>, which the loop reads as the empty list.
\<close>

definition cmcd_param :: "(string \<times> string list) list \<Rightarrow> string list" where
  "cmcd_param params =
     (case find (\<lambda>(k, vs). lower k = ''cmcd'') params of
        None \<Rightarrow> []
      | Some (k, vs) \<Rightarrow> vs)"

definition parse_cmcd_from_query_string :: "(string \<Rightarrow> string) \<Rightarrow> string \<Rightarrow> (string \<times> string) list" where
  "parse_cmcd_from_query_string unq query_string =
     (if query_string = [] \<or> strip query_string = [] then []
      else
        (let params = parse_qs unq query_string;
             out1 = fold (\<lambda>raw out. fold combined_pair (split_on (CHR '','') raw) out)
                      (cmcd_param params) []
         in fold prefixed_param params out1))"

definition parse_cmcd_from_path :: "(string \<Rightarrow> string) \<Rightarrow> string \<Rightarrow> (string \<times> string) list" where
  "parse_cmcd_from_path unq path_with_query =
     (if path_with_query = [] then []
      else if CHR ''?'' \<in> set path_with_query
      then parse_cmcd_from_query_string unq (after_sep (CHR ''?'') path_with_query)
      else [])"

section \<open>The decoder (\<open>cdn_log_parser\<close>)\<close>

definition FIELD_NAMES :: "string list" where
  "FIELD_NAMES =
     [''remote_addr'', ''_'', ''remote_user'', ''time_local'', ''request'', ''status'',
      ''body_bytes_sent'', ''http_referer'', ''http_user_agent'', ''bytes_sent'',
      ''edgename'', ''scheme'', ''host'', ''request_time'', ''upstream_response_time'',
      ''request_length'', ''http_range'', ''responding_node'', ''upstream_cache_status'',
      ''upstream_response_length'', ''upstream_addr'', ''gcdn_api_client_id'',
      ''gcdn_api_resource_id'', ''uid_got'', ''uid_set'', ''geoip_country_code'',
      ''geoip_city'', ''shield_type'', ''server_addr'', ''server_port'',
      ''upstream_status'', ''_2'', ''upstream_connect_time'', ''upstream_header_time'',
      ''shard_addr'', ''geoip2_data_asnumber'', ''connection'', ''connection_requests'',
      ''http_traceparent'', ''http_x_forwarded_proto'', ''gcdn_internal_status_code'',
      ''ssl_cipher'', ''ssl_session_id'', ''ssl_session_reused'',
      ''sent_http_content_type'', ''tcpinfo_rtt'', ''server_country_code'',
      ''gcdn_tcpinfo_snd_cwnd'', ''gcdn_tcpinfo_total_retrans'', ''gcdn_rule_id'']"

text \<open>
  The dataclass \<open>ParsedCDNLog\<close>. Its field \<open>method\<close> is \<open>req_method\<close> here, the
  name being a keyword of the prover.
\<close>

record ParsedCDNLog =
  raw :: string
  remote_addr :: string
  time_local :: string
  request :: string
  req_method :: string
  path :: string
  status :: string
  body_bytes_sent :: string
  http_referer :: string
  http_user_agent :: string
  bytes_sent :: string
  edgename :: string
  scheme :: string
  host :: string
  request_time :: string
  upstream_cache_status :: string
  geoip_country_code :: string
  sent_http_content_type :: string
  attributes :: "(string \<times> string) list"

definition strip_brackets :: "string \<Rightarrow> string" where
  "strip_brackets s =
     (if s \<noteq> [] then strip_chars (\<lambda>c. c = CHR ''['' \<or> c = CHR '']'') s else [])"

definition parse_request :: "string \<Rightarrow> string \<times> string" where
  "parse_request req =
     (let parts = split_none 2 req in
      if length parts \<ge> 2 then (parts ! 0, parts ! 1)
      else if length parts = 1 then (parts ! 0, [])
      else ([], []))"

text \<open>The two tests of \<open>_find_request_field\<close>, in the order the code makes them.\<close>

definition method_prefixed :: "string \<Rightarrow> bool" where
  "method_prefixed s \<longleftrightarrow>
     startswith s ''GET '' \<or> startswith s ''POST '' \<or> startswith s ''HEAD '' \<or>
     startswith s ''PUT '' \<or> startswith s ''OPTIONS ''"

definition request_like :: "string \<Rightarrow> bool" where
  "request_like s \<longleftrightarrow> CHR '' '' \<in> set (strip (drop 4 s)) \<and> CHR ''/'' \<in> set s"

fun find_request_field :: "string list \<Rightarrow> string" where
  "find_request_field [] = []"
| "find_request_field (f # fs) =
     (let s = strip f in
      if method_prefixed s
      then (if request_like s then s else find_request_field fs)
      else find_request_field fs)"

text \<open>The test of \<open>_find_cmcd_raw_field\<close>.\<close>

definition marker_prefixed :: "string \<Rightarrow> bool" where
  "marker_prefixed s \<longleftrightarrow> startswith s ''CMCD='' \<or> startswith s ''cmcd=''"

fun find_cmcd_raw_field :: "string list \<Rightarrow> string" where
  "find_cmcd_raw_field [] = []"
| "find_cmcd_raw_field (f # fs) =
     (let s = strip f in
      if marker_prefixed s then s
      else find_cmcd_raw_field fs)"

text \<open>The local function \<open>get\<close>; every call site passes a literal index that is not negative.\<close>

definition get :: "string list \<Rightarrow> nat \<Rightarrow> string \<Rightarrow> string" where
  "get flds idx dflt =
     (if idx < length flds then or_default (strip (flds ! idx)) dflt else dflt)"

text \<open>The loop over \<open>enumerate(FIELD_NAMES)\<close> that fills \<open>attrs\<close>.\<close>

definition column_step :: "string list \<Rightarrow> nat \<times> string \<Rightarrow> (string \<times> string) list \<Rightarrow> (string \<times> string) list" where
  "column_step flds p attrs =
     (case p of (idx, name) \<Rightarrow>
        if startswith name ''_'' then attrs
        else if idx < length flds
        then AList.update (''cdn.'' @ name) (or_default (strip (flds ! idx)) ''-'') attrs
        else attrs)"

definition column_attrs :: "string list \<Rightarrow> (string \<times> string) list" where
  "column_attrs flds = fold (column_step flds) (enumerate 0 FIELD_NAMES) []"

text \<open>The loop over \<open>cmcd_attrs.items()\<close> that merges the metrics.\<close>

definition merge_step :: "string \<times> string \<Rightarrow> (string \<times> string) list \<Rightarrow> (string \<times> string) list" where
  "merge_step kv attrs = (case kv of (k, v) \<Rightarrow> if v \<noteq> [] then AList.update k v attrs else attrs)"

definition merge_cmcd :: "(string \<times> string) list \<Rightarrow> (string \<times> string) list \<Rightarrow> (string \<times> string) list" where
  "merge_cmcd cmcd_attrs attrs = fold merge_step cmcd_attrs attrs"

text \<open>The request text the decoder works with, and the metrics it merges.\<close>

definition chosen_request :: "string list \<Rightarrow> string" where
  "chosen_request flds = or_default (find_request_field flds) (get flds 4 [])"

definition chosen_cmcd :: "(string \<Rightarrow> string) \<Rightarrow> string list \<Rightarrow> string \<Rightarrow> (string \<times> string) list" where
  "chosen_cmcd unq flds pth =
     (let cmcd_attrs = parse_cmcd_from_path unq pth in
      if cmcd_attrs = [] then
        (let raw_cmcd = find_cmcd_raw_field flds in
         if raw_cmcd \<noteq> [] then parse_cmcd_from_query_string unq raw_cmcd else cmcd_attrs)
      else cmcd_attrs)"

definition parse_gcore_log_line :: "(string \<Rightarrow> string) \<Rightarrow> string \<Rightarrow> ParsedCDNLog option" where
  "parse_gcore_log_line unq line0 =
     (let line = strip line0 in
      if line = [] then None
      else
        (let flds = parse_quoted_fields line in
         if length flds < 10 then None
         else
           (let attrs0 = column_attrs flds;
                tl0 = strip_brackets (get flds 3 []);
                req = chosen_request flds;
                mp = parse_request req;
                cmcd_attrs = chosen_cmcd unq flds (snd mp);
                attrs = merge_cmcd cmcd_attrs attrs0
            in Some \<lparr> raw = line,
                      remote_addr = get flds 0 [],
                      time_local = tl0,
                      request = req,
                      req_method = fst mp,
                      path = snd mp,
                      status = get flds 5 [],
                      body_bytes_sent = get flds 6 [],
                      http_referer = get flds 7 [],
                      http_user_agent = get flds 8 [],
                      bytes_sent = get flds 9 [],
                      edgename = strip_brackets (get flds 10 []),
                      scheme = get flds 11 [],
                      host = get flds 12 [],
                      request_time = get flds 13 [],
                      upstream_cache_status = get flds 18 [],
                      geoip_country_code = get flds 25 [],
                      sent_http_content_type = get flds 39 [],
                      attributes = attrs \<rparr>)))"

section \<open>The emitter (\<open>otel_exporter\<close>)\<close>

text \<open>
  \<open>_parse_timestamp\<close>: \<open>datetime.strptime\<close> with the fixed format is the parameter
  \<open>strptime_ns\<close>, which gives the nanoseconds since the epoch, or \<open>None\<close> where the
  library raises.
\<close>

definition parse_timestamp :: "(string \<Rightarrow> int option) \<Rightarrow> string \<Rightarrow> int option" where
  "parse_timestamp strptime_ns tl0 =
     (if tl0 = [] then None
      else strptime_ns (strip_chars (\<lambda>c. c = CHR ''['' \<or> c = CHR '']'') tl0))"

text \<open>The arguments \<open>emit_parsed_log\<close> passes to \<open>logger.emit\<close>.\<close>

record LogRecord =
  body :: string
  timestamp :: int
  observed_timestamp :: int
  severity_number :: nat
  severity_text :: string
  record_attributes :: "(string \<times> string) list"

text \<open>
  \<open>emit_parsed_log\<close>. The two readings of the clock are the parameters \<open>now1\<close> and
  \<open>now2\<close>; a parsed timestamp of 0 is falsy, so the clock replaces it. Every attribute
  value is a string already, and \<open>str\<close> leaves it as it is.
\<close>

definition emit_parsed_log ::
  "(string \<Rightarrow> int option) \<Rightarrow> int \<Rightarrow> int \<Rightarrow> ParsedCDNLog \<Rightarrow> string option \<Rightarrow> int option \<Rightarrow> LogRecord" where
  "emit_parsed_log strptime_ns now1 now2 parsed s3_key observed_ts_ns =
     (let ts_ns = (case parse_timestamp strptime_ns (time_local parsed) of
                     None \<Rightarrow> now1
                   | Some t \<Rightarrow> if t \<noteq> 0 then t else now1);
          observed = (case observed_ts_ns of None \<Rightarrow> now2 | Some t \<Rightarrow> t);
          attrs = attributes parsed;
          attrs = (case s3_key of
                     None \<Rightarrow> attrs
                   | Some k \<Rightarrow> if k \<noteq> [] then AList.update ''cdn.s3_key'' k attrs else attrs)
      in \<lparr> body = raw parsed,
           timestamp = ts_ns,
           observed_timestamp = observed,
           severity_number = 9,
           severity_text = ''INFO'',
           record_attributes = attrs \<rparr>)"

section \<open>The specification's wording of the two content scans\<close>

text \<open>
  The specification's request scan: a token that begins with a known method name and a
  space, and whose remainder after the method holds a slash and further
  whitespace-separated content.
\<close>

definition http_methods :: "string list" where
  "http_methods = [''GET'', ''POST'', ''HEAD'', ''PUT'', ''OPTIONS'']"

definition request_shaped_spec :: "string \<Rightarrow> bool" where
  "request_shaped_spec s \<longleftrightarrow>
     (\<exists>m \<in> set http_methods.
        startswith s (m @ '' '') \<and>
        CHR ''/'' \<in> set (drop (length m + 1) s) \<and>
        length (split_none 1 (drop (length m + 1) s)) = 2)"

text \<open>
  The side condition of the scenario in its own words: a field that starts with a
  method name, read on the field as it stands in the line.
\<close>

definition starts_with_method_name :: "string \<Rightarrow> bool" where
  "starts_with_method_name f \<longleftrightarrow> (\<exists>m \<in> set http_methods. startswith f m)"

text \<open>
  The specification's marker scan: the first token that begins with the marker, in any
  mix of upper and lower case; its full text is the raw query string.
\<close>

definition marker_prefixed_spec :: "string \<Rightarrow> bool" where
  "marker_prefixed_spec s \<longleftrightarrow> lower (take 5 s) = ''cmcd=''"

fun find_cmcd_raw_field_spec :: "string list \<Rightarrow> string" where
  "find_cmcd_raw_field_spec [] = []"
| "find_cmcd_raw_field_spec (f # fs) =
     (if marker_prefixed_spec f then f else find_cmcd_raw_field_spec fs)"

section \<open>Sample lines\<close>

definition scenario_line :: string where
  \<open>scenario_line = '' "1.2.3.4" "-" "-" "[26/Apr/2019:09:47:40 +0000]" "GET /vod/seg.m4s?cmcd=ot=v,br=3200 HTTP/1.1" "200" "1234" "-" "ua" "1500" "[edge1]" "https" ''\<close>

definition leading_space_line :: string where
  \<open>leading_space_line = ''" GET /x y" "-" "-" "[26/Apr/2019:09:47:40 +0000]" "GET /vod/seg.m4s?cmcd=ot=v,br=3200 HTTP/1.1" "200" "1234" "-" "ua" "1500" "[edge1]" "https"''\<close>

definition mixed_case_line :: string where
  \<open>mixed_case_line = ''"1.2.3.4" "-" "-" "[26/Apr/2019:09:47:40 +0000]" "GET /vod/seg.m4s HTTP/1.1" "200" "1234" "-" "ua" "1500" "Cmcd=br=3200"''\<close>

definition upper_case_line :: string where
  \<open>upper_case_line = ''"1.2.3.4" "-" "-" "[26/Apr/2019:09:47:40 +0000]" "GET /vod/seg.m4s HTTP/1.1" "200" "1234" "-" "ua" "1500" " CMCD=br=3200"''\<close>

definition options_line :: string where
  \<open>options_line = ''"1.2.3.4" "-" "OPTIONS /a" "[26/Apr/2019:09:47:40 +0000]" "GET /b HTTP/1.1" "200" "1234" "-" "ua" "1500"''\<close>

text \<open>
  What the proofs need of \<open>urllib.parse.unquote\<close>: a string without a percent sign is
  returned as it is (the library tests \<open>'%' not in string\<close> first).
\<close>

definition plain_unquote :: "(string \<Rightarrow> string) \<Rightarrow> bool" where
  "plain_unquote unq \<longleftrightarrow> (\<forall>s. CHR ''%'' \<notin> set s \<longrightarrow> unq s = s)"

section \<open>Rejected lines\<close>

text \<open>
  C1. A line that is empty once trimmed, or whose trimmed text tokenizes to fewer than
  10 fields, is not a record: the decoder returns \<open>None\<close>, whatever the line holds.
\<close>

theorem short_line_rejected:
  "strip line = [] \<or> length (parse_quoted_fields (strip line)) < 10
   \<Longrightarrow> parse_gcore_log_line unq line = None"
  unfolding parse_gcore_log_line_def by (simp only: Let_def split: if_splits) auto

theorem short_line_rejected_witness:
  \<open>length (parse_quoted_fields (strip ''"a" "b" '')) < 10 \<and>
   parse_gcore_log_line (\<lambda>s. s) ''"a" "b" '' = None\<close>
proof -
  have h: \<open>length (parse_quoted_fields (strip ''"a" "b" '')) < 10\<close> by code_simp
  show ?thesis using h short_line_rejected[OF disjI2[OF h]] by simp
qed

section \<open>Strings without a percent sign\<close>

lemma split_acc_chars:
  "p \<in> set (split_acc sep cur s) \<Longrightarrow> set p \<subseteq> set cur \<union> set s"
proof (induction s arbitrary: cur)
  case Nil
  then show ?case by simp
next
  case (Cons c s)
  show ?case
  proof (cases "c = sep")
    case True
    with Cons.prems have "p = cur \<or> p \<in> set (split_acc sep [] s)" by simp
    then show ?thesis using Cons.IH[of "[]"] by auto
  next
    case False
    with Cons.prems have "p \<in> set (split_acc sep (cur @ [c]) s)" by simp
    then show ?thesis using Cons.IH[of "cur @ [c]"] by auto
  qed
qed

lemma split_on_chars: "p \<in> set (split_on sep s) \<Longrightarrow> set p \<subseteq> set s"
  using split_acc_chars[of p sep "[]" s] by (simp add: split_on_def)

lemma before_sep_chars: "set (before_sep sep s) \<subseteq> set s"
  by (auto simp: before_sep_def dest: set_takeWhileD)

lemma after_sep_chars: "set (after_sep sep s) \<subseteq> set s"
proof -
  have t: "set (tl xs) \<subseteq> set xs" for xs :: string
    by (cases xs) auto
  have "set (tl (dropWhile (\<lambda>c. c \<noteq> sep) s)) \<subseteq> set (dropWhile (\<lambda>c. c \<noteq> sep) s)"
    by (rule t)
  also have "\<dots> \<subseteq> set s" by (auto dest: set_dropWhileD)
  finally show ?thesis by (simp add: after_sep_def)
qed

lemma plus_to_space_percent:
  "CHR ''%'' \<notin> set s \<Longrightarrow> CHR ''%'' \<notin> set (plus_to_space s)"
  by (auto simp: plus_to_space_def)

lemma parse_qsl_plain:
  assumes "plain_unquote unq" and "CHR ''%'' \<notin> set qs"
  shows "parse_qsl unq qs = parse_qsl (\<lambda>s. s) qs"
proof -
  have u: "unq (plus_to_space t) = plus_to_space t" if "set t \<subseteq> set qs" for t
  proof -
    from that assms(2) have "CHR ''%'' \<notin> set t" by auto
    then have "CHR ''%'' \<notin> set (plus_to_space t)" by (rule plus_to_space_percent)
    with assms(1) show ?thesis by (simp add: plain_unquote_def)
  qed
  have "(if nv = [] then []
         else (let nv0 = before_sep (CHR ''='') nv;
                   nv1 = (if CHR ''='' \<in> set nv then after_sep (CHR ''='') nv else [])
               in [(unq (plus_to_space nv0), unq (plus_to_space nv1))])) =
        (if nv = [] then []
         else (let nv0 = before_sep (CHR ''='') nv;
                   nv1 = (if CHR ''='' \<in> set nv then after_sep (CHR ''='') nv else [])
               in [(plus_to_space nv0, plus_to_space nv1)]))"
    if "nv \<in> set (split_on (CHR ''&'') qs)" for nv
  proof -
    from that have s: "set nv \<subseteq> set qs" by (rule split_on_chars)
    have a: "set (before_sep (CHR ''='') nv) \<subseteq> set qs"
      using before_sep_chars[of "CHR ''=''" nv] s by blast
    have b: "set (after_sep (CHR ''='') nv) \<subseteq> set qs"
      using after_sep_chars[of "CHR ''=''" nv] s by blast
    have c: "unq (plus_to_space []) = plus_to_space []" by (rule u) simp
    show ?thesis using u[OF a] u[OF b] c by (simp add: Let_def)
  qed
  then show ?thesis
    unfolding parse_qsl_def Let_def by (auto intro!: arg_cong[where f=concat] map_cong)
qed

lemma parse_cmcd_from_query_string_plain:
  assumes "plain_unquote unq" and "CHR ''%'' \<notin> set qs"
  shows "parse_cmcd_from_query_string unq qs = parse_cmcd_from_query_string (\<lambda>s. s) qs"
  by (simp add: parse_cmcd_from_query_string_def parse_qs_def parse_qsl_plain[OF assms])

lemma parse_cmcd_from_path_plain:
  assumes "plain_unquote unq" and "CHR ''%'' \<notin> set p"
  shows "parse_cmcd_from_path unq p = parse_cmcd_from_path (\<lambda>s. s) p"
proof -
  have "CHR ''%'' \<notin> set (after_sep (CHR ''?'') p)"
    using after_sep_chars[of "CHR ''?''" p] assms(2) by blast
  then show ?thesis
    by (simp add: parse_cmcd_from_path_def parse_cmcd_from_query_string_plain[OF assms(1)])
qed

section \<open>The metrics extractor on the two encodings\<close>

lemma dual_form_eval:
  "parse_cmcd_from_query_string (\<lambda>s. s) ''cmcd=br=3200,bl=12500&cmcd.ot=v'' =
   [(''cmcd.br'', ''3200''), (''cmcd.bl'', ''12500''), (''cmcd.ot'', ''v'')]"
  by code_simp

text \<open>
  C4. The query string \<open>cmcd=br=3200,bl=12500&cmcd.ot=v\<close> gives exactly the three
  entries \<open>br = 3200\<close>, \<open>bl = 12500\<close> (combined form) and \<open>ot = v\<close> (prefixed form),
  under the keys \<open>cmcd.br\<close>, \<open>cmcd.bl\<close>, \<open>cmcd.ot\<close>.
\<close>

theorem dual_form_merge:
  "plain_unquote unq \<Longrightarrow>
   parse_cmcd_from_query_string unq ''cmcd=br=3200,bl=12500&cmcd.ot=v'' =
   [(''cmcd.br'', ''3200''), (''cmcd.bl'', ''12500''), (''cmcd.ot'', ''v'')]"
  by (simp add: parse_cmcd_from_query_string_plain dual_form_eval)

theorem dual_form_merge_witness:
  "plain_unquote (\<lambda>s. s) \<and>
   parse_cmcd_from_query_string (\<lambda>s. s) ''cmcd=br=3200,bl=12500&cmcd.ot=v'' =
   [(''cmcd.br'', ''3200''), (''cmcd.bl'', ''12500''), (''cmcd.ot'', ''v'')]"
proof -
  have h: "plain_unquote (\<lambda>s. s)" by (simp add: plain_unquote_def)
  show ?thesis using h dual_form_merge[OF h] by simp
qed

lemma upper_marker_eval:
  "parse_cmcd_from_query_string (\<lambda>s. s) ''CMCD.br=3200'' = [] \<and>
   parse_cmcd_from_query_string (\<lambda>s. s) ''CMCD=br=3200'' = [(''cmcd.br'', ''3200'')] \<and>
   parse_cmcd_from_query_string (\<lambda>s. s) ''cmcd.br=3200'' = [(''cmcd.br'', ''3200'')]"
  by code_simp

text \<open>
  C10. The prefixed form is matched with the lower-case prefix \<open>cmcd.\<close> only: the query
  string \<open>CMCD.br=3200\<close> gives the empty mapping, since its name is neither the bare
  marker in any case nor a name with the lower-case prefix. The upper-case combined
  form \<open>CMCD=br=3200\<close> and the lower-case prefixed form \<open>cmcd.br=3200\<close> are both decoded.
\<close>

theorem prefixed_name_case_sensitive:
  "plain_unquote unq \<Longrightarrow>
   parse_cmcd_from_query_string unq ''CMCD.br=3200'' = [] \<and>
   parse_cmcd_from_query_string unq ''CMCD=br=3200'' = [(''cmcd.br'', ''3200'')] \<and>
   parse_cmcd_from_query_string unq ''cmcd.br=3200'' = [(''cmcd.br'', ''3200'')]"
  by (simp add: parse_cmcd_from_query_string_plain upper_marker_eval)

theorem prefixed_name_case_sensitive_witness:
  "plain_unquote (\<lambda>s. s) \<and>
   parse_cmcd_from_query_string (\<lambda>s. s) ''CMCD.br=3200'' = [] \<and>
   parse_cmcd_from_query_string (\<lambda>s. s) ''CMCD=br=3200'' = [(''cmcd.br'', ''3200'')] \<and>
   parse_cmcd_from_query_string (\<lambda>s. s) ''cmcd.br=3200'' = [(''cmcd.br'', ''3200'')]"
proof -
  have h: "plain_unquote (\<lambda>s. s)" by (simp add: plain_unquote_def)
  show ?thesis using h prefixed_name_case_sensitive[OF h] by simp
qed

section \<open>The dictionary of query parameters\<close>

lemma add_value_keys:
  "map fst (add_value name v d) = (if name \<in> fst ` set d then map fst d else map fst d @ [name])"
  by (induction name v d rule: add_value.induct) auto

lemma add_value_distinct:
  "distinct (map fst d) \<Longrightarrow> distinct (map fst (add_value name v d))"
  by (simp add: add_value_keys)

lemma add_value_nonempty:
  "\<forall>p \<in> set d. snd p \<noteq> [] \<Longrightarrow> \<forall>p \<in> set (add_value name v d). snd p \<noteq> []"
  by (induction name v d rule: add_value.induct) auto

lemma fold_add_value_inv:
  "distinct (map fst d) \<and> (\<forall>p \<in> set d. snd p \<noteq> []) \<Longrightarrow>
   distinct (map fst (fold (\<lambda>(name, v) d. add_value name v d) xs d)) \<and>
   (\<forall>p \<in> set (fold (\<lambda>(name, v) d. add_value name v d) xs d). snd p \<noteq> [])"
proof (induction xs arbitrary: d)
  case Nil
  then show ?case by simp
next
  case (Cons x xs)
  obtain n v where x: "x = (n, v)" by (cases x)
  have "distinct (map fst (add_value n v d)) \<and> (\<forall>p \<in> set (add_value n v d). snd p \<noteq> [])"
    using Cons.prems add_value_distinct add_value_nonempty by blast
  from Cons.IH[OF this] show ?case by (simp add: x)
qed

lemma parse_qs_distinct: "distinct (map fst (parse_qs unq qs))"
  using fold_add_value_inv[of "[]"] by (simp add: parse_qs_def)

lemma parse_qs_values: "(k, vs) \<in> set (parse_qs unq qs) \<Longrightarrow> vs \<noteq> []"
  using fold_add_value_inv[of "[]" "parse_qsl unq qs"] by (fastforce simp: parse_qs_def)

lemma startswith_append: "startswith (p @ s) p"
  by (induction p) auto

lemma startswith_drop: "startswith s p \<Longrightarrow> p @ drop (length p) s = s"
  by (induction s p rule: startswith.induct) auto

lemma prefixed_param_other:
  "fst kv \<noteq> key \<Longrightarrow> map_of (prefixed_param kv out) key = map_of out key"
proof -
  obtain k vs where kv: "kv = (k, vs)" by (cases kv)
  assume "fst kv \<noteq> key"
  then have ne: "k \<noteq> key" by (simp add: kv)
  show ?thesis
  proof (cases "startswith k ''cmcd.''")
    case True
    from startswith_drop[OF True] have "''cmcd.'' @ drop 5 k = k"
      by (simp add: eval_nat_numeral)
    with ne show ?thesis by (simp add: prefixed_param_def kv Let_def update_conv')
  next
    case False
    then show ?thesis by (simp add: prefixed_param_def kv)
  qed
qed

lemma fold_prefixed_other:
  "key \<notin> fst ` set ps \<Longrightarrow> map_of (fold prefixed_param ps out) key = map_of out key"
  by (induction ps arbitrary: out) (auto simp: prefixed_param_other)

lemma fold_prefixed_lookup:
  assumes "distinct (map fst ps)" and "(''cmcd.'' @ k, vs) \<in> set ps" and "k \<noteq> []" and "vs \<noteq> []"
  shows "map_of (fold prefixed_param ps out) (''cmcd.'' @ k) = Some (clean (hd vs))"
  using assms(1,2)
proof (induction ps arbitrary: out)
  case Nil
  then show ?case by simp
next
  case (Cons p ps)
  show ?case
  proof (cases "p = (''cmcd.'' @ k, vs)")
    case True
    with Cons.prems(1) have "''cmcd.'' @ k \<notin> fst ` set ps" by auto
    then have "map_of (fold prefixed_param ps (prefixed_param p out)) (''cmcd.'' @ k) =
               map_of (prefixed_param p out) (''cmcd.'' @ k)"
      by (rule fold_prefixed_other)
    also have "\<dots> = Some (clean (hd vs))"
      using assms(3,4) startswith_append[of "''cmcd.''" k]
      by (simp add: True prefixed_param_def Let_def update_conv')
    finally show ?thesis by simp
  next
    case False
    with Cons.prems have "(''cmcd.'' @ k, vs) \<in> set ps" and "distinct (map fst ps)" by auto
    from Cons.IH[OF this(2) this(1)] show ?thesis by simp
  qed
qed

section \<open>A key given in both encodings\<close>

text \<open>
  C5. Whenever the query string has a prefixed parameter \<open>cmcd.k\<close> (with \<open>k\<close> not
  empty), the result maps \<open>cmcd.k\<close> to the cleaned first value of that parameter,
  whatever the combined form gave for \<open>k\<close>: the prefixed pass runs second.
\<close>

theorem prefixed_form_wins:
  assumes "strip qs \<noteq> []"
    and "map_of (parse_qs unq qs) (''cmcd.'' @ k) = Some vs"
    and "k \<noteq> []"
  shows "map_of (parse_cmcd_from_query_string unq qs) (''cmcd.'' @ k) = Some (clean (hd vs))"
proof -
  from assms(2) have m: "(''cmcd.'' @ k, vs) \<in> set (parse_qs unq qs)" by (rule map_of_SomeD)
  then have v: "vs \<noteq> []" by (rule parse_qs_values)
  from assms(1) have q: "qs \<noteq> []" by (auto simp: strip_def strip_chars_def)
  show ?thesis
    using fold_prefixed_lookup[OF parse_qs_distinct m assms(3) v] assms(1) q
    by (simp add: parse_cmcd_from_query_string_def Let_def)
qed

lemma collide_eval:
  "strip ''cmcd=br=1&cmcd.br=2'' \<noteq> [] \<and>
   map_of (parse_qs (\<lambda>s. s) ''cmcd=br=1&cmcd.br=2'') (''cmcd.'' @ ''br'') = Some [''2''] \<and>
   ''br'' \<noteq> [] \<and> clean (hd [''2'']) = ''2'' \<and>
   parse_cmcd_from_query_string (\<lambda>s. s) ''cmcd=br=1'' = [(''cmcd.br'', ''1'')]"
  by code_simp

theorem prefixed_form_wins_witness:
  "strip ''cmcd=br=1&cmcd.br=2'' \<noteq> [] \<and>
   map_of (parse_qs (\<lambda>s. s) ''cmcd=br=1&cmcd.br=2'') (''cmcd.'' @ ''br'') = Some [''2''] \<and>
   ''br'' \<noteq> [] \<and>
   parse_cmcd_from_query_string (\<lambda>s. s) ''cmcd=br=1'' = [(''cmcd.br'', ''1'')] \<and>
   map_of (parse_cmcd_from_query_string (\<lambda>s. s) ''cmcd=br=1&cmcd.br=2'') (''cmcd.'' @ ''br'')
     = Some ''2''"
proof -
  note e = collide_eval
  from e have 1: "strip ''cmcd=br=1&cmcd.br=2'' \<noteq> []" by blast
  from e have 2: "map_of (parse_qs (\<lambda>s. s) ''cmcd=br=1&cmcd.br=2'') (''cmcd.'' @ ''br'')
                    = Some [''2'']" by blast
  from e have 3: "''br'' \<noteq> []" by blast
  from e have 4: "clean (hd [''2'']) = ''2''" by blast
  from e have 5: "parse_cmcd_from_query_string (\<lambda>s. s) ''cmcd=br=1'' = [(''cmcd.br'', ''1'')]"
    by blast
  from prefixed_form_wins[OF 1 2 3] 4
  have "map_of (parse_cmcd_from_query_string (\<lambda>s. s) ''cmcd=br=1&cmcd.br=2'')
          (''cmcd.'' @ ''br'') = Some ''2''" by simp
  with 1 2 3 5 show ?thesis by blast
qed

section \<open>The attribute mapping\<close>

lemma update_entries:
  "set (AList.update k v al) \<subseteq> set al \<union> {(k, v)}"
  by (induction al) auto

lemma fold_entries:
  assumes "\<And>x a. x \<in> set xs \<Longrightarrow> set (f x a) \<subseteq> set a \<union> {e. Q x e}"
  shows "set (fold f xs a) \<subseteq> set a \<union> {e. \<exists>x \<in> set xs. Q x e}"
  using assms
proof (induction xs arbitrary: a)
  case Nil
  then show ?case by simp
next
  case (Cons x xs)
  have 1: "set (f x a) \<subseteq> set a \<union> {e. Q x e}" by (rule Cons.prems) simp
  have 2: "set (fold f xs (f x a)) \<subseteq> set (f x a) \<union> {e. \<exists>y \<in> set xs. Q y e}"
    by (rule Cons.IH) (simp add: Cons.prems)
  from 1 2 show ?case by auto
qed

lemma or_default_nonempty: "d \<noteq> [] \<Longrightarrow> or_default x d \<noteq> []"
  by (simp add: or_default_def)

lemma column_step_entries:
  "set (column_step flds p attrs) \<subseteq>
     set attrs \<union> {e. fst p < length flds \<and>
                      e = (''cdn.'' @ snd p, or_default (strip (flds ! fst p)) ''-'')}"
  using update_entries[of "''cdn.'' @ snd p" "or_default (strip (flds ! fst p)) ''-''" attrs]
  by (cases p) (auto simp: column_step_def)

lemma column_attrs_entries:
  assumes "(k, v) \<in> set (column_attrs flds)"
  shows "\<exists>idx. idx < length flds \<and> idx < length FIELD_NAMES \<and>
           k = ''cdn.'' @ FIELD_NAMES ! idx \<and> v = or_default (strip (flds ! idx)) ''-''"
proof -
  have "set (column_attrs flds) \<subseteq>
          set [] \<union> {e. \<exists>p \<in> set (enumerate 0 FIELD_NAMES). fst p < length flds \<and>
                      e = (''cdn.'' @ snd p, or_default (strip (flds ! fst p)) ''-'')}"
    unfolding column_attrs_def by (rule fold_entries) (rule column_step_entries)
  with assms obtain p where p: "p \<in> set (enumerate 0 FIELD_NAMES)" "fst p < length flds"
      "(k, v) = (''cdn.'' @ snd p, or_default (strip (flds ! fst p)) ''-'')"
    by auto
  from p(1) have "fst p < length FIELD_NAMES" and "snd p = FIELD_NAMES ! fst p"
    by (auto simp: in_set_enumerate_eq)
  with p(2,3) show ?thesis by auto
qed

lemma merge_step_entries:
  "set (merge_step kv attrs) \<subseteq> set attrs \<union> {e. e = kv \<and> snd kv \<noteq> []}"
  using update_entries[of "fst kv" "snd kv" attrs]
  by (cases kv) (auto simp: merge_step_def)

lemma merge_cmcd_entries:
  "set (merge_cmcd cmcd_attrs attrs) \<subseteq> set attrs \<union> {e. e \<in> set cmcd_attrs \<and> snd e \<noteq> []}"
proof -
  have "set (fold merge_step cmcd_attrs attrs) \<subseteq>
          set attrs \<union> {e. \<exists>kv \<in> set cmcd_attrs. e = kv \<and> snd kv \<noteq> []}"
    by (rule fold_entries) (rule merge_step_entries)
  then show ?thesis by (auto simp: merge_cmcd_def)
qed

lemma parse_gcore_log_line_SomeD:
  assumes "parse_gcore_log_line unq line = Some r"
  shows "strip line \<noteq> []"
    and "10 \<le> length (parse_quoted_fields (strip line))"
    and "raw r = strip line"
    and "request r = chosen_request (parse_quoted_fields (strip line))"
    and "req_method r = fst (parse_request (request r))"
    and "path r = snd (parse_request (request r))"
    and "time_local r = strip_brackets (get (parse_quoted_fields (strip line)) 3 [])"
    and "attributes r =
           merge_cmcd (chosen_cmcd unq (parse_quoted_fields (strip line)) (path r))
             (column_attrs (parse_quoted_fields (strip line)))"
  using assms unfolding parse_gcore_log_line_def
  by (auto simp: Let_def split: if_splits)

lemma scenario_eval:
  \<open>parse_gcore_log_line (\<lambda>s. s) scenario_line \<noteq> None \<and>
   attributes (the (parse_gcore_log_line (\<lambda>s. s) scenario_line)) =
     [(''cdn.remote_addr'', ''1.2.3.4''), (''cdn.remote_user'', ''-''),
      (''cdn.time_local'', ''[26/Apr/2019:09:47:40 +0000]''),
      (''cdn.request'', ''GET /vod/seg.m4s?cmcd=ot=v,br=3200 HTTP/1.1''),
      (''cdn.status'', ''200''), (''cdn.body_bytes_sent'', ''1234''),
      (''cdn.http_referer'', ''-''), (''cdn.http_user_agent'', ''ua''),
      (''cdn.bytes_sent'', ''1500''), (''cdn.edgename'', ''[edge1]''),
      (''cdn.scheme'', ''https''), (''cmcd.ot'', ''v''), (''cmcd.br'', ''3200'')]\<close>
  by code_simp

text \<open>
  C9. In a decoded record every attribute value is a non-empty string. Each entry is
  either a column attribute, whose value is the trimmed token or the placeholder \<open>-\<close>
  when the trimmed token is empty, or an entry of the decoded metrics, merged only when
  its value is not empty.
\<close>

theorem attribute_values_nonempty:
  assumes "parse_gcore_log_line unq line = Some r" and "(k, v) \<in> set (attributes r)"
  shows "v \<noteq> [] \<and>
         ((\<exists>idx. idx < length (parse_quoted_fields (strip line)) \<and> idx < length FIELD_NAMES \<and>
                 k = ''cdn.'' @ FIELD_NAMES ! idx \<and>
                 v = or_default (strip (parse_quoted_fields (strip line) ! idx)) ''-'') \<or>
          (k, v) \<in> set (chosen_cmcd unq (parse_quoted_fields (strip line)) (path r)))"
proof -
  let ?flds = "parse_quoted_fields (strip line)"
  from assms(2) parse_gcore_log_line_SomeD(8)[OF assms(1)]
  have "(k, v) \<in> set (merge_cmcd (chosen_cmcd unq ?flds (path r)) (column_attrs ?flds))" by simp
  with merge_cmcd_entries
  have "(k, v) \<in> set (column_attrs ?flds) \<or>
        ((k, v) \<in> set (chosen_cmcd unq ?flds (path r)) \<and> v \<noteq> [])"
    by fastforce
  then show ?thesis
  proof
    assume "(k, v) \<in> set (column_attrs ?flds)"
    from column_attrs_entries[OF this] obtain idx where
      i: "idx < length ?flds" "idx < length FIELD_NAMES" "k = ''cdn.'' @ FIELD_NAMES ! idx"
         "v = or_default (strip (?flds ! idx)) ''-''"
      by blast
    have "v \<noteq> []" unfolding i(4) by (rule or_default_nonempty) simp
    with i show ?thesis by blast
  next
    assume "(k, v) \<in> set (chosen_cmcd unq ?flds (path r)) \<and> v \<noteq> []"
    then show ?thesis by simp
  qed
qed


theorem attribute_values_nonempty_witness:
  "parse_gcore_log_line (\<lambda>s. s) scenario_line =
     Some (the (parse_gcore_log_line (\<lambda>s. s) scenario_line)) \<and>
   (''cdn.http_referer'', ''-'') \<in>
     set (attributes (the (parse_gcore_log_line (\<lambda>s. s) scenario_line))) \<and>
   ''-'' \<noteq> [] \<and>
   ((\<exists>idx. idx < length (parse_quoted_fields (strip scenario_line)) \<and>
           idx < length FIELD_NAMES \<and>
           ''cdn.http_referer'' = ''cdn.'' @ FIELD_NAMES ! idx \<and>
           ''-'' = or_default (strip (parse_quoted_fields (strip scenario_line) ! idx)) ''-'') \<or>
    (''cdn.http_referer'', ''-'') \<in>
      set (chosen_cmcd (\<lambda>s. s) (parse_quoted_fields (strip scenario_line))
             (path (the (parse_gcore_log_line (\<lambda>s. s) scenario_line)))))"
proof -
  from scenario_eval
  have 1: "parse_gcore_log_line (\<lambda>s. s) scenario_line =
             Some (the (parse_gcore_log_line (\<lambda>s. s) scenario_line))"
    by auto
  from scenario_eval
  have 2: "(''cdn.http_referer'', ''-'') \<in>
             set (attributes (the (parse_gcore_log_line (\<lambda>s. s) scenario_line)))"
    by simp
  show ?thesis using attribute_values_nonempty[OF 1 2] 1 2 by blast
qed

section \<open>The raw line and the event body\<close>

text \<open>
  C7, as stated: the \<open>raw\<close> field, which is the body of the exported event, is the
  original line verbatim, leading and trailing whitespace included. It fails on a line
  that starts and ends with a space: the decoder keeps the trimmed text.
\<close>

theorem raw_not_verbatim_counterexample:
  \<open>parse_gcore_log_line (\<lambda>s. s) scenario_line \<noteq> None \<and>
   raw (the (parse_gcore_log_line (\<lambda>s. s) scenario_line)) \<noteq> scenario_line \<and>
   body (emit_parsed_log (\<lambda>s. None) 0 0
           (the (parse_gcore_log_line (\<lambda>s. s) scenario_line)) None None)
     \<noteq> scenario_line\<close>
  by code_simp

text \<open>
  C7, amended: on every line that decodes to a record, \<open>raw\<close> and the event body are
  the line without its leading and trailing whitespace; they are the original text
  exactly when the line has no such whitespace.
\<close>

theorem raw_is_trimmed_line:
  assumes "parse_gcore_log_line unq line = Some r"
  shows "raw r = strip line \<and>
         body (emit_parsed_log strptime_ns now1 now2 r s3_key observed_ts_ns) = strip line \<and>
         (raw r = line \<longleftrightarrow> strip line = line)"
  using parse_gcore_log_line_SomeD(3)[OF assms]
  by (simp add: emit_parsed_log_def Let_def)

theorem raw_is_trimmed_line_witness:
  "parse_gcore_log_line (\<lambda>s. s) scenario_line =
     Some (the (parse_gcore_log_line (\<lambda>s. s) scenario_line)) \<and>
   raw (the (parse_gcore_log_line (\<lambda>s. s) scenario_line)) = strip scenario_line \<and>
   body (emit_parsed_log (\<lambda>s. None) 0 0
           (the (parse_gcore_log_line (\<lambda>s. s) scenario_line)) None None)
     = strip scenario_line \<and>
   (raw (the (parse_gcore_log_line (\<lambda>s. s) scenario_line)) = scenario_line
      \<longleftrightarrow> strip scenario_line = scenario_line)"
proof -
  from scenario_eval
  have 1: "parse_gcore_log_line (\<lambda>s. s) scenario_line =
             Some (the (parse_gcore_log_line (\<lambda>s. s) scenario_line))"
    by auto
  show ?thesis
    using raw_is_trimmed_line[OF 1, of "\<lambda>s. None" 0 0 None None] 1 by blast
qed

section \<open>The marker column\<close>

lemma find_cmcd_raw_field_find:
  "find_cmcd_raw_field flds =
     (case find marker_prefixed (map strip flds) of None \<Rightarrow> [] | Some s \<Rightarrow> s)"
  by (induction flds) (simp_all add: Let_def)

lemma marker_prefixed_nonempty: "marker_prefixed s \<Longrightarrow> s \<noteq> []"
  by (auto simp: marker_prefixed_def)

text \<open>
  C8, as stated: when the request path gives no metrics, the first token that begins
  with the marker in any mix of cases is fed to the extractor. It fails on a line whose
  last token is \<open>Cmcd=br=3200\<close>: the path has no query, the extractor would decode the
  token to \<open>cmcd.br = 3200\<close>, but the decoder's scan does not select it and the record
  has no \<open>cmcd.br\<close> attribute.
\<close>

theorem mixed_case_marker_counterexample:
  "parse_quoted_fields (strip mixed_case_line) =
     [''1.2.3.4'', ''-'', ''-'', ''[26/Apr/2019:09:47:40 +0000]'', ''GET /vod/seg.m4s HTTP/1.1'',
      ''200'', ''1234'', ''-'', ''ua'', ''1500'', ''Cmcd=br=3200''] \<and>
   parse_gcore_log_line (\<lambda>s. s) mixed_case_line \<noteq> None \<and>
   parse_cmcd_from_path (\<lambda>s. s)
     (path (the (parse_gcore_log_line (\<lambda>s. s) mixed_case_line))) = [] \<and>
   find_cmcd_raw_field_spec (parse_quoted_fields (strip mixed_case_line)) = ''Cmcd=br=3200'' \<and>
   parse_cmcd_from_query_string (\<lambda>s. s) ''Cmcd=br=3200'' = [(''cmcd.br'', ''3200'')] \<and>
   find_cmcd_raw_field (parse_quoted_fields (strip mixed_case_line)) = [] \<and>
   map_of (attributes (the (parse_gcore_log_line (\<lambda>s. s) mixed_case_line))) ''cmcd.br''
     = None \<and>
   map_of (merge_cmcd
       (parse_cmcd_from_query_string (\<lambda>s. s)
          (find_cmcd_raw_field_spec (parse_quoted_fields (strip mixed_case_line))))
       (column_attrs (parse_quoted_fields (strip mixed_case_line)))) ''cmcd.br''
     = Some ''3200''"
  by code_simp

text \<open>
  C8, amended: when the request path gives no metrics, the metrics merged into the
  record are those the extractor decodes from the first token that, once trimmed, begins
  with \<open>CMCD=\<close> or with \<open>cmcd=\<close>, these two spellings only; the trimmed token is the
  query string. When no token qualifies, no metrics are merged.
\<close>

theorem raw_marker_fallback:
  assumes "parse_gcore_log_line unq line = Some r"
    and "parse_cmcd_from_path unq (path r) = []"
  shows "attributes r =
           merge_cmcd
             (case find marker_prefixed (map strip (parse_quoted_fields (strip line))) of
                None \<Rightarrow> []
              | Some s \<Rightarrow> parse_cmcd_from_query_string unq s)
             (column_attrs (parse_quoted_fields (strip line)))"
proof -
  let ?flds = "parse_quoted_fields (strip line)"
  have "chosen_cmcd unq ?flds (path r) =
          (case find marker_prefixed (map strip ?flds) of
             None \<Rightarrow> []
           | Some s \<Rightarrow> parse_cmcd_from_query_string unq s)"
  proof (cases "find marker_prefixed (map strip ?flds)")
    case None
    then show ?thesis
      by (simp add: chosen_cmcd_def assms(2) find_cmcd_raw_field_find)
  next
    case (Some s)
    then have "marker_prefixed s" by (auto simp: find_Some_iff)
    then have "s \<noteq> []" by (rule marker_prefixed_nonempty)
    with Some show ?thesis
      by (simp add: chosen_cmcd_def assms(2) find_cmcd_raw_field_find)
  qed
  with parse_gcore_log_line_SomeD(8)[OF assms(1)] show ?thesis by simp
qed

lemma upper_case_eval:
  "parse_gcore_log_line (\<lambda>s. s) upper_case_line \<noteq> None \<and>
   parse_cmcd_from_path (\<lambda>s. s)
     (path (the (parse_gcore_log_line (\<lambda>s. s) upper_case_line))) = [] \<and>
   find marker_prefixed (map strip (parse_quoted_fields (strip upper_case_line)))
     = Some ''CMCD=br=3200'' \<and>
   parse_cmcd_from_query_string (\<lambda>s. s) ''CMCD=br=3200'' = [(''cmcd.br'', ''3200'')]"
  by code_simp

theorem raw_marker_fallback_witness:
  "parse_gcore_log_line (\<lambda>s. s) upper_case_line =
     Some (the (parse_gcore_log_line (\<lambda>s. s) upper_case_line)) \<and>
   parse_cmcd_from_path (\<lambda>s. s)
     (path (the (parse_gcore_log_line (\<lambda>s. s) upper_case_line))) = [] \<and>
   attributes (the (parse_gcore_log_line (\<lambda>s. s) upper_case_line)) =
     merge_cmcd [(''cmcd.br'', ''3200'')]
       (column_attrs (parse_quoted_fields (strip upper_case_line)))"
proof -
  from upper_case_eval
  have 1: "parse_gcore_log_line (\<lambda>s. s) upper_case_line =
             Some (the (parse_gcore_log_line (\<lambda>s. s) upper_case_line))"
    by auto
  from upper_case_eval
  have 2: "parse_cmcd_from_path (\<lambda>s. s)
             (path (the (parse_gcore_log_line (\<lambda>s. s) upper_case_line))) = []"
    by blast
  from upper_case_eval
  have 3: "find marker_prefixed (map strip (parse_quoted_fields (strip upper_case_line)))
             = Some ''CMCD=br=3200''"
    by blast
  from upper_case_eval
  have 4: "parse_cmcd_from_query_string (\<lambda>s. s) ''CMCD=br=3200'' = [(''cmcd.br'', ''3200'')]"
    by blast
  show ?thesis using raw_marker_fallback[OF 1 2] 1 2 by (simp add: 3 4)
qed

section \<open>The request scan\<close>

text \<open>
  C3, at the line whose third token is \<open>OPTIONS /a\<close> and whose fifth token is
  \<open>GET /b HTTP/1.1\<close>. The remainder of \<open>OPTIONS /a\<close> after the method is \<open>/a\<close>, with
  nothing after the path, so it is not a request in the specification's wording, and
  the first token that is one is \<open>GET /b HTTP/1.1\<close>. The decoder's scan reads the text
  from the fifth character on, \<open>ONS /a\<close>, finds a space there, and takes the method and
  the path from \<open>OPTIONS /a\<close>.
\<close>

theorem options_token_precedence:
  "parse_quoted_fields (strip options_line) =
     [''1.2.3.4'', ''-'', ''OPTIONS /a'', ''[26/Apr/2019:09:47:40 +0000]'', ''GET /b HTTP/1.1'',
      ''200'', ''1234'', ''-'', ''ua'', ''1500''] \<and>
   \<not> request_shaped_spec ''OPTIONS /a'' \<and>
   find request_shaped_spec (map strip (parse_quoted_fields (strip options_line)))
     = Some ''GET /b HTTP/1.1'' \<and>
   parse_request ''GET /b HTTP/1.1'' = (''GET'', ''/b'') \<and>
   find_request_field (parse_quoted_fields (strip options_line)) = ''OPTIONS /a'' \<and>
   parse_gcore_log_line (\<lambda>s. s) options_line \<noteq> None \<and>
   request (the (parse_gcore_log_line (\<lambda>s. s) options_line)) = ''OPTIONS /a'' \<and>
   req_method (the (parse_gcore_log_line (\<lambda>s. s) options_line)) = ''OPTIONS'' \<and>
   path (the (parse_gcore_log_line (\<lambda>s. s) options_line)) = ''/a''"
  by code_simp

section \<open>The tokenizer reads inside the line\<close>

declare fields_loop.simps [simp del]

lemma slice_empty: "slice line i i = []"
  by (simp add: slice_def)

lemma slice_step: "i < length line \<Longrightarrow> i < j \<Longrightarrow> slice line i j = line ! i # slice line (Suc i) j"
proof -
  assume a: "i < length line" "i < j"
  then obtain d where d: "j - i = Suc d" and d': "j - Suc i = d"
    by (metis Suc_diff_Suc)
  from a(1) have "drop i line = line ! i # drop (Suc i) line"
    by (simp add: Cons_nth_drop_Suc)
  then show ?thesis by (simp add: slice_def d d')
qed

lemma scan_to_quote_past: "length line \<le> i \<Longrightarrow> scan_to_quote line i = Inr i"
  by (simp add: scan_to_quote.simps[of line i])

lemma scan_to_quote_scan_field:
  "\<exists>j. scan_to_quote line i = Inr j \<and> i \<le> j \<and>
       fst (scan_field (drop i line)) = slice line i j \<and>
       snd (scan_field (drop i line)) = drop (if j < length line then j + 1 else j) line"
proof (induction line i rule: scan_to_quote.induct)
  case (1 line i)
  show ?case
  proof (cases "i < length line")
    case False
    then show ?thesis by (simp add: scan_to_quote.simps[of line i] slice_empty)
  next
    case lt: True
    have c: "char_at line i = Inr (line ! i)" using lt by (simp add: char_at_def)
    have dr: "drop i line = line ! i # drop (Suc i) line"
      using lt by (simp add: Cons_nth_drop_Suc)
    show ?thesis
    proof (cases "line ! i = dquote")
      case True
      with lt show ?thesis
        by (simp add: scan_to_quote.simps[of line i] c dr slice_empty)
    next
      case nq: False
      let ?k = "(if line ! i = backslash then i + 1 else i) + 1"
      from "1.IH"[OF lt c nq c] obtain j where
        j: "scan_to_quote line ?k = Inr j" "?k \<le> j"
           "fst (scan_field (drop ?k line)) = slice line ?k j"
           "snd (scan_field (drop ?k line)) = drop (if j < length line then j + 1 else j) line"
        by blast
      from lt nq j(1) have r: "scan_to_quote line i = Inr j"
        by (simp add: scan_to_quote.simps[of line i] c)
      show ?thesis
      proof (cases "line ! i = backslash")
        case bs: True
        with j have k: "Suc (Suc i) \<le> j" by simp
        show ?thesis
        proof (cases "Suc i < length line")
          case True
          then have dr2: "drop (Suc i) line = line ! Suc i # drop (Suc (Suc i)) line"
            by (simp add: Cons_nth_drop_Suc)
          have sl: "slice line i j = line ! i # line ! Suc i # slice line (Suc (Suc i)) j"
            using slice_step[OF lt, of j] slice_step[OF True, of j] k by simp
          from j(3,4) bs have
            "fst (scan_field (drop (Suc (Suc i)) line)) = slice line (Suc (Suc i)) j"
            "snd (scan_field (drop (Suc (Suc i)) line)) =
               drop (if j < length line then j + 1 else j) line"
            by simp_all
          with r k nq bs show ?thesis
            by (auto simp: dr dr2 sl split: prod.splits)
        next
          case False
          with lt have e: "Suc i = length line" by simp
          then have dr2: "drop (Suc i) line = []" by simp
          from e have "scan_to_quote line (Suc (Suc i)) = Inr (Suc (Suc i))"
            by (intro scan_to_quote_past) simp
          with j(1) bs have je: "j = Suc (Suc i)" by simp
          have sl: "slice line i j = [line ! i]"
            using e by (simp add: slice_def je dr)
          have f: "fst (scan_field (drop i line)) = [line ! i]"
                  "snd (scan_field (drop i line)) = []"
            using nq bs by (simp_all add: dr dr2)
          have d0: "drop (if j < length line then j + 1 else j) line = []"
            using je e by simp
          have "i \<le> j" using je by simp
          with r f sl d0 show ?thesis by simp
        qed
      next
        case nb: False
        with j have k: "Suc i \<le> j" by simp
        have sl: "slice line i j = line ! i # slice line (Suc i) j"
          using slice_step[OF lt, of j] k by simp
        from j(3,4) nb have
          "fst (scan_field (drop (Suc i) line)) = slice line (Suc i) j"
          "snd (scan_field (drop (Suc i) line)) =
             drop (if j < length line then j + 1 else j) line"
          by simp_all
        with r k nq nb show ?thesis
          by (auto simp: dr sl split: prod.splits)
      qed
    qed
  qed
qed

lemma fields_loop_eq:
  "fields_loop line i acc = Inr (acc @ parse_quoted_fields (drop i line))"
proof (induction line i acc rule: fields_loop.induct)
  case (1 line i acc)
  show ?case
  proof (cases "i < length line")
    case False
    then show ?thesis by (simp add: fields_loop.simps[of line i])
  next
    case lt: True
    have c: "char_at line i = Inr (line ! i)" using lt by (simp add: char_at_def)
    have dr: "drop i line = line ! i # drop (Suc i) line"
      using lt by (simp add: Cons_nth_drop_Suc)
    show ?thesis
    proof (cases "line ! i = dquote")
      case True
      from scan_to_quote_scan_field[of line "i + 1"] obtain j where
        j: "scan_to_quote line (i + 1) = Inr j"
           "fst (scan_field (drop (i + 1) line)) = slice line (i + 1) j"
           "snd (scan_field (drop (i + 1) line)) =
              drop (if j < length line then j + 1 else j) line"
        by blast
      from "1.IH"(1)[OF lt c True j(1)]
      have "fields_loop line (if j < length line then j + 1 else j)
              (acc @ [replace_escaped_quote (slice line (i + 1) j)]) =
            Inr ((acc @ [replace_escaped_quote (slice line (i + 1) j)]) @
                 parse_quoted_fields (drop (if j < length line then j + 1 else j) line))" .
      with lt True j show ?thesis
        by (simp add: fields_loop.simps[of line i] c dr)
    next
      case False
      from "1.IH"(2)[OF lt c False] lt False show ?thesis
        by (simp add: fields_loop.simps[of line i] c dr)
    qed
  qed
qed

lemma parse_quoted_fields_ix_eq:
  "parse_quoted_fields_ix line = Inr (parse_quoted_fields line)"
  by (simp add: parse_quoted_fields_ix_def fields_loop_eq)


section \<open>An unterminated quote\<close>

lemma scan_field_open: "\<not> has_closing cs \<Longrightarrow> scan_field cs = (cs, [])"
proof (induction cs rule: scan_field.induct)
  case 1
  show ?case by simp
next
  case (2 c cs)
  from "2.prems" have nq: "c \<noteq> dquote" by (auto split: if_splits)
  show ?case
  proof (cases "c = backslash")
    case bs: True
    show ?thesis
    proof (cases cs)
      case Nil
      with nq bs show ?thesis by simp
    next
      case (Cons d ds)
      with "2.prems" nq bs have "\<not> has_closing ds" by simp
      from "2.IH"(1)[OF nq bs Cons this] nq bs Cons show ?thesis by simp
    qed
  next
    case False
    with "2.prems" nq have "\<not> has_closing cs" by simp
    from "2.IH"(2)[OF nq False this] nq False show ?thesis by simp
  qed
qed

lemma scan_field_closed:
  "has_closing cs \<Longrightarrow>
   scan_field (cs @ t) = (fst (scan_field cs), snd (scan_field cs) @ t)"
proof (induction cs rule: scan_field.induct)
  case 1
  then show ?case by simp
next
  case (2 c cs)
  show ?case
  proof (cases "c = dquote")
    case True
    then show ?thesis by simp
  next
    case nq: False
    show ?thesis
    proof (cases "c = backslash")
      case bs: True
      show ?thesis
      proof (cases cs)
        case Nil
        with "2.prems" nq bs show ?thesis by simp
      next
        case (Cons d ds)
        with "2.prems" nq bs have "has_closing ds" by simp
        from "2.IH"(1)[OF nq bs Cons this] nq bs Cons show ?thesis
          by (simp split: prod.splits)
      qed
    next
      case False
      with "2.prems" nq have "has_closing cs" by simp
      from "2.IH"(2)[OF nq False this] nq False show ?thesis
        by (simp split: prod.splits)
    qed
  qed
qed

lemma parse_quoted_fields_append:
  "ends_outside pre \<Longrightarrow>
   parse_quoted_fields (pre @ t) = parse_quoted_fields pre @ parse_quoted_fields t"
proof (induction pre rule: ends_outside.induct)
  case 1
  show ?case by simp
next
  case (2 c cs)
  show ?case
  proof (cases "c = dquote")
    case True
    with "2.prems" have h: "has_closing cs" and e: "ends_outside (snd (scan_field cs))"
      by simp_all
    from "2.IH"(1)[OF True e] scan_field_closed[OF h, of t] True show ?thesis by simp
  next
    case False
    with "2.prems" have "ends_outside cs" by simp
    from "2.IH"(2)[OF False this] False show ?thesis by simp
  qed
qed

lemma replace_escaped_quote_plain:
  "backslash \<notin> set cs \<Longrightarrow> replace_escaped_quote cs = cs"
  by (induction cs rule: replace_escaped_quote.induct) auto

text \<open>
  C6. The tokenizer returns a list of fields on every line: no read of the source leaves
  the line, so no \<open>IndexError\<close> is raised. When the line holds an opening quote (the
  text \<open>pre\<close> before it leaves the scan between fields) that no unescaped quote closes,
  the last field is the text from that quote to the end of the line, with the escaped
  quotes unescaped as in every field; it is that text unchanged when it holds no
  backslash.
\<close>

theorem unterminated_quote_runs_to_end:
  assumes "ends_outside pre" and "\<not> has_closing rest"
  shows "parse_quoted_fields_ix (pre @ dquote # rest) =
           Inr (parse_quoted_fields pre @ [replace_escaped_quote rest]) \<and>
         parse_quoted_fields (pre @ dquote # rest) =
           parse_quoted_fields pre @ [replace_escaped_quote rest] \<and>
         last (parse_quoted_fields (pre @ dquote # rest)) = replace_escaped_quote rest \<and>
         (backslash \<notin> set rest \<longrightarrow> last (parse_quoted_fields (pre @ dquote # rest)) = rest)"
proof -
  have "parse_quoted_fields (dquote # rest) = [replace_escaped_quote rest]"
    by (simp add: scan_field_open[OF assms(2)])
  with parse_quoted_fields_append[OF assms(1), of "dquote # rest"]
  have e: "parse_quoted_fields (pre @ dquote # rest) =
             parse_quoted_fields pre @ [replace_escaped_quote rest]"
    by simp
  then show ?thesis
    by (simp add: parse_quoted_fields_ix_eq replace_escaped_quote_plain)
qed


lemma unterminated_eval:
  \<open>ends_outside ''"a" '' \<and> \<not> has_closing ''b c '' \<and> backslash \<notin> set ''b c '' \<and>
   parse_quoted_fields ''"a" '' = [''a''] \<and> replace_escaped_quote ''b c '' = ''b c ''\<close>
  by code_simp

theorem unterminated_quote_runs_to_end_witness:
  \<open>ends_outside ''"a" '' \<and> \<not> has_closing ''b c '' \<and> backslash \<notin> set ''b c '' \<and>
   parse_quoted_fields_ix (''"a" '' @ dquote # ''b c '') = Inr [''a'', ''b c ''] \<and>
   parse_quoted_fields (''"a" '' @ dquote # ''b c '') = [''a'', ''b c ''] \<and>
   last (parse_quoted_fields (''"a" '' @ dquote # ''b c '')) = ''b c ''\<close>
proof -
  from unterminated_eval have 1: \<open>ends_outside ''"a" ''\<close> by blast
  from unterminated_eval have 2: \<open>\<not> has_closing ''b c ''\<close> by blast
  from unterminated_eval have 3: \<open>backslash \<notin> set ''b c ''\<close> by blast
  from unterminated_eval have 4: \<open>parse_quoted_fields ''"a" '' = [''a'']\<close> by blast
  from unterminated_eval have 5: \<open>replace_escaped_quote ''b c '' = ''b c ''\<close> by blast
  show ?thesis
    using unterminated_quote_runs_to_end[OF 1 2] 1 2 3 by (simp only: 4 5) simp
qed

section \<open>The scenario line\<close>

lemma parse_gcore_log_line_Some:
  "strip line \<noteq> [] \<Longrightarrow> 10 \<le> length (parse_quoted_fields (strip line)) \<Longrightarrow>
   \<exists>r. parse_gcore_log_line unq line = Some r"
  by (simp add: parse_gcore_log_line_def Let_def)

lemma scenario_tokens_eval:
  "\<not> method_prefixed (strip ''[26/Apr/2019:09:47:40 +0000]'') \<and>
   strip ''GET /vod/seg.m4s?cmcd=ot=v,br=3200 HTTP/1.1'' =
     ''GET /vod/seg.m4s?cmcd=ot=v,br=3200 HTTP/1.1'' \<and>
   method_prefixed ''GET /vod/seg.m4s?cmcd=ot=v,br=3200 HTTP/1.1'' \<and>
   request_like ''GET /vod/seg.m4s?cmcd=ot=v,br=3200 HTTP/1.1'' \<and>
   parse_request ''GET /vod/seg.m4s?cmcd=ot=v,br=3200 HTTP/1.1'' =
     (''GET'', ''/vod/seg.m4s?cmcd=ot=v,br=3200'') \<and>
   CHR ''%'' \<notin> set ''/vod/seg.m4s?cmcd=ot=v,br=3200'' \<and>
   parse_cmcd_from_path (\<lambda>s. s) ''/vod/seg.m4s?cmcd=ot=v,br=3200'' =
     [(''cmcd.ot'', ''v''), (''cmcd.br'', ''3200'')] \<and>
   strip_brackets (or_default (strip ''[26/Apr/2019:09:47:40 +0000]'') []) =
     ''26/Apr/2019:09:47:40 +0000''"
  by code_simp

text \<open>
  C2, as stated: every line of 12 fields whose fourth field is
  \<open>[26/Apr/2019:09:47:40 +0000]\<close>, whose fifth field is
  \<open>GET /vod/seg.m4s?cmcd=ot=v,br=3200 HTTP/1.1\<close> and whose earlier fields do not
  themselves start with a method name decodes to the path
  \<open>/vod/seg.m4s?cmcd=ot=v,br=3200\<close> with the attributes \<open>cmcd.ot\<close> and \<open>cmcd.br\<close>. It
  fails on the line whose first field is \<open> GET /x y\<close>, with a space in front: the field
  does not start with a method name, but the request scan trims every token before it
  tests it, selects this one, and the record has the path \<open>/x\<close> and no metrics.
\<close>

theorem scenario_leading_space_counterexample:
  "parse_quoted_fields (strip leading_space_line) =
     ['' GET /x y'', ''-'', ''-'', ''[26/Apr/2019:09:47:40 +0000]'',
      ''GET /vod/seg.m4s?cmcd=ot=v,br=3200 HTTP/1.1'', ''200'', ''1234'', ''-'', ''ua'',
      ''1500'', ''[edge1]'', ''https''] \<and>
   \<not> starts_with_method_name '' GET /x y'' \<and>
   \<not> starts_with_method_name ''-'' \<and>
   \<not> starts_with_method_name ''[26/Apr/2019:09:47:40 +0000]'' \<and>
   parse_gcore_log_line (\<lambda>s. s) leading_space_line \<noteq> None \<and>
   request (the (parse_gcore_log_line (\<lambda>s. s) leading_space_line)) = ''GET /x y'' \<and>
   path (the (parse_gcore_log_line (\<lambda>s. s) leading_space_line)) = ''/x'' \<and>
   path (the (parse_gcore_log_line (\<lambda>s. s) leading_space_line))
     \<noteq> ''/vod/seg.m4s?cmcd=ot=v,br=3200'' \<and>
   map_of (attributes (the (parse_gcore_log_line (\<lambda>s. s) leading_space_line))) ''cmcd.ot''
     = None \<and>
   map_of (attributes (the (parse_gcore_log_line (\<lambda>s. s) leading_space_line))) ''cmcd.br''
     = None"
  by code_simp

text \<open>
  C2, amended: a line of 12 fields whose fourth field is \<open>[26/Apr/2019:09:47:40 +0000]\<close>
  and whose fifth field is \<open>GET /vod/seg.m4s?cmcd=ot=v,br=3200 HTTP/1.1\<close>, and whose
  first three fields, once trimmed as the decoder reads them, do not begin with a method
  name and a space, decodes to a record with the timestamp without its brackets, the
  method \<open>GET\<close>, the path with its query, and the attributes \<open>cmcd.ot = v\<close> and
  \<open>cmcd.br = 3200\<close>.
\<close>

theorem scenario_record:
  assumes "plain_unquote unq"
    and "parse_quoted_fields (strip line) =
           [f0, f1, f2, ''[26/Apr/2019:09:47:40 +0000]'',
            ''GET /vod/seg.m4s?cmcd=ot=v,br=3200 HTTP/1.1'', f5, f6, f7, f8, f9, f10, f11]"
    and "\<not> method_prefixed (strip f0)"
    and "\<not> method_prefixed (strip f1)"
    and "\<not> method_prefixed (strip f2)"
  shows "\<exists>r. parse_gcore_log_line unq line = Some r \<and>
             time_local r = ''26/Apr/2019:09:47:40 +0000'' \<and>
             req_method r = ''GET'' \<and>
             path r = ''/vod/seg.m4s?cmcd=ot=v,br=3200'' \<and>
             map_of (attributes r) ''cmcd.ot'' = Some ''v'' \<and>
             map_of (attributes r) ''cmcd.br'' = Some ''3200''"
proof -
  let ?flds = "parse_quoted_fields (strip line)"
  note e = scenario_tokens_eval
  have ne: "strip line \<noteq> []"
  proof
    assume "strip line = []"
    then have "?flds = []" by simp
    with assms(2) show False by simp
  qed
  have len: "10 \<le> length ?flds" by (simp add: assms(2))
  from parse_gcore_log_line_Some[OF ne len] obtain r where
    r: "parse_gcore_log_line unq line = Some r" by blast
  note d = parse_gcore_log_line_SomeD[OF r]
  have found: "find_request_field ?flds = ''GET /vod/seg.m4s?cmcd=ot=v,br=3200 HTTP/1.1''"
    using e assms(3,4,5) by (simp add: assms(2) Let_def)
  have req: "request r = ''GET /vod/seg.m4s?cmcd=ot=v,br=3200 HTTP/1.1''"
    by (simp add: d(4) chosen_request_def found or_default_def)
  have m: "req_method r = ''GET''" and p: "path r = ''/vod/seg.m4s?cmcd=ot=v,br=3200''"
    using e by (simp_all add: d(5,6) req)
  have "parse_cmcd_from_path unq (path r) = parse_cmcd_from_path (\<lambda>s. s) (path r)"
    unfolding p using e by (intro parse_cmcd_from_path_plain[OF assms(1)]) blast
  with e have c: "parse_cmcd_from_path unq (path r) =
                    [(''cmcd.ot'', ''v''), (''cmcd.br'', ''3200'')]"
    by (simp add: p)
  have cc: "chosen_cmcd unq ?flds (path r) = [(''cmcd.ot'', ''v''), (''cmcd.br'', ''3200'')]"
    by (simp add: chosen_cmcd_def c)
  have a: "attributes r =
             merge_cmcd [(''cmcd.ot'', ''v''), (''cmcd.br'', ''3200'')] (column_attrs ?flds)"
    by (simp add: d(8) cc)
  have ot: "map_of (attributes r) ''cmcd.ot'' = Some ''v''"
    and br: "map_of (attributes r) ''cmcd.br'' = Some ''3200''"
    by (simp_all add: a merge_cmcd_def merge_step_def update_conv')
  have t: "time_local r = ''26/Apr/2019:09:47:40 +0000''"
    using e by (simp add: d(7) get_def assms(2))
  from r t m p ot br show ?thesis by blast
qed

lemma scenario_fields_eval:
  "parse_quoted_fields (strip scenario_line) =
     [''1.2.3.4'', ''-'', ''-'', ''[26/Apr/2019:09:47:40 +0000]'',
      ''GET /vod/seg.m4s?cmcd=ot=v,br=3200 HTTP/1.1'', ''200'', ''1234'', ''-'', ''ua'',
      ''1500'', ''[edge1]'', ''https''] \<and>
   \<not> method_prefixed (strip ''1.2.3.4'') \<and> \<not> method_prefixed (strip ''-'')"
  by code_simp

theorem scenario_record_witness:
  "plain_unquote (\<lambda>s. s) \<and>
   parse_quoted_fields (strip scenario_line) =
     [''1.2.3.4'', ''-'', ''-'', ''[26/Apr/2019:09:47:40 +0000]'',
      ''GET /vod/seg.m4s?cmcd=ot=v,br=3200 HTTP/1.1'', ''200'', ''1234'', ''-'', ''ua'',
      ''1500'', ''[edge1]'', ''https''] \<and>
   \<not> method_prefixed (strip ''1.2.3.4'') \<and> \<not> method_prefixed (strip ''-'') \<and>
   (\<exists>r. parse_gcore_log_line (\<lambda>s. s) scenario_line = Some r \<and>
        time_local r = ''26/Apr/2019:09:47:40 +0000'' \<and>
        req_method r = ''GET'' \<and>
        path r = ''/vod/seg.m4s?cmcd=ot=v,br=3200'' \<and>
        map_of (attributes r) ''cmcd.ot'' = Some ''v'' \<and>
        map_of (attributes r) ''cmcd.br'' = Some ''3200'')"
proof -
  have h: "plain_unquote (\<lambda>s. s)" by (simp add: plain_unquote_def)
  from scenario_fields_eval have 1: "parse_quoted_fields (strip scenario_line) =
     [''1.2.3.4'', ''-'', ''-'', ''[26/Apr/2019:09:47:40 +0000]'',
      ''GET /vod/seg.m4s?cmcd=ot=v,br=3200 HTTP/1.1'', ''200'', ''1234'', ''-'', ''ua'',
      ''1500'', ''[edge1]'', ''https'']" by blast
  from scenario_fields_eval have 2: "\<not> method_prefixed (strip ''1.2.3.4'')" by blast
  from scenario_fields_eval have 3: "\<not> method_prefixed (strip ''-'')" by blast
  from scenario_record[OF h 1 2 3 3] h 1 2 3 show ?thesis by blast
qed

end
